theory Spec2Isabelle
  imports Main "HOL-Library.Word"
begin

section \<open>Data model of \<^verbatim>\<open>main.py\<close>\<close>

text \<open>
  The exceptions the engine can raise: \<^verbatim>\<open>IndexError\<close> from indexing one of the two
  per-ticker arrays out of range, and \<^verbatim>\<open>TypeError\<close> from comparing two
  \<^verbatim>\<open>AtomicInteger\<close> objects, a class that defines no ordering.
\<close>

datatype error = IndexError | TypeError

text \<open>
  \<^verbatim>\<open>order_type\<close> is the string \<^verbatim>\<open>"Buy"\<close> or \<^verbatim>\<open>"Sell"\<close> (the comment in
  \<^verbatim>\<open>Order.__init__\<close>); the two tags are the constructors of \<open>side\<close>.
\<close>

datatype side = Buy | Sell

subsection \<open>AtomicInteger\<close>

text \<open>
  An \<^verbatim>\<open>AtomicInteger\<close> holds one \<^verbatim>\<open>ctypes.c_int\<close>, a 32-bit two's complement cell.
  ctypes does no overflow checking: constructing the cell and assigning to its
  \<^verbatim>\<open>.value\<close> keep the low 32 bits (\<open>word_of_int\<close>), reading \<^verbatim>\<open>.value\<close> gives the
  signed value (\<open>sint\<close>). The object is identified with the cell it holds.
\<close>

type_synonym AtomicInteger = "32 word"

definition AtomicInteger_init :: "int \<Rightarrow> AtomicInteger" where
  "AtomicInteger_init v = word_of_int v"

definition get :: "AtomicInteger \<Rightarrow> int" where
  "get a = sint a"

text \<open>
  \<^verbatim>\<open>add\<close> reads the cell, computes \<^verbatim>\<open>new_value\<close> as an unbounded Python integer,
  stores it (wrapped by the cell) and returns the unwrapped \<^verbatim>\<open>new_value\<close>. Its
  \<^verbatim>\<open>while True\<close> loop returns in the first iteration, because the test
  \<^verbatim>\<open>ctypes.c_int(current).value == current\<close> is applied to a value just read from a
  \<^verbatim>\<open>c_int\<close> (lemma \<open>add_check_holds\<close> below). The result is the returned value paired
  with the cell after the call.
\<close>

definition add :: "AtomicInteger \<Rightarrow> int \<Rightarrow> int \<times> AtomicInteger" where
  "add a delta =
     (let current = sint a;
          new_value = current + delta
      in (new_value, word_of_int new_value))"

definition subtract :: "AtomicInteger \<Rightarrow> int \<Rightarrow> int \<times> AtomicInteger" where
  "subtract a delta = add a (- delta)"

subsection \<open>Order and OrderBook\<close>

text \<open>
  The \<^verbatim>\<open>next\<close> pointer of an \<^verbatim>\<open>Order\<close> is the tail of the list that holds it: a
  linked list of orders is an \<open>Order list\<close>, \<^verbatim>\<open>None\<close> is \<open>[]\<close>. Every order is
  created inside \<^verbatim>\<open>add_order\<close> and linked into at most one list, so no two lists share
  a node. Prices are compared only; they are integers here (a number of ticks).
\<close>

record Order =
  order_type :: side
  ticker :: int
  quantity :: AtomicInteger
  price :: int

definition Order_init :: "side \<Rightarrow> int \<Rightarrow> int \<Rightarrow> int \<Rightarrow> Order" where
  "Order_init ot t q p =
     \<lparr>order_type = ot, ticker = t, quantity = AtomicInteger_init q, price = p\<rparr>"

text \<open>An executed trade is the tuple \<^verbatim>\<open>(price, matched_quantity, ticker)\<close>.\<close>

type_synonym trade = "int \<times> int \<times> int"

record OrderBook =
  buy_orders :: "Order list list"
  sell_orders :: "Order list list"

definition OrderBook_init :: OrderBook where
  "OrderBook_init = \<lparr>buy_orders = replicate 1024 [], sell_orders = replicate 1024 []\<rparr>"

text \<open>
  Python list indexing: an index \<open>i\<close> is in range when \<open>- len \<le> i < len\<close>, a negative
  index counts from the end, and any other index raises \<^verbatim>\<open>IndexError\<close>.
\<close>

definition index_ok :: "'a list \<Rightarrow> int \<Rightarrow> bool" where
  "index_ok xs i \<longleftrightarrow> - int (length xs) \<le> i \<and> i < int (length xs)"

definition slot :: "'a list \<Rightarrow> int \<Rightarrow> nat" where
  "slot xs i = nat (if i < 0 then int (length xs) + i else i)"

section \<open>Sorted insertion\<close>

text \<open>
  The traversal loop of \<^verbatim>\<open>_insert_order\<close>: the argument is the chain \<^verbatim>\<open>current.next\<close>,
  the result is the chain stored back into \<^verbatim>\<open>current.next\<close>.
\<close>

fun insert_traverse :: "Order \<Rightarrow> Order list \<Rightarrow> Order list" where
  "insert_traverse new_order [] = [new_order]"
| "insert_traverse new_order (n # rest) =
     (if (order_type new_order = Buy \<and> price n > price new_order)
         \<or> (order_type new_order = Sell \<and> price n < price new_order)
      then n # insert_traverse new_order rest
      else new_order # n # rest)"

text \<open>The three branches of \<^verbatim>\<open>_insert_order\<close> on the linked list found at the ticker.\<close>

fun insert_chain :: "Order \<Rightarrow> Order list \<Rightarrow> Order list" where
  "insert_chain new_order [] = [new_order]"
| "insert_chain new_order (head # rest) =
     (if (order_type new_order = Buy \<and> price head \<le> price new_order)
         \<or> (order_type new_order = Sell \<and> price head \<ge> price new_order)
      then new_order # head # rest
      else head # insert_traverse new_order rest)"

definition insert_order ::
  "Order list list \<Rightarrow> int \<Rightarrow> Order \<Rightarrow> error + Order list list" where
  "insert_order order_list t new_order =
     (if index_ok order_list t
      then Inr (order_list[slot order_list t :=
                  insert_chain new_order (order_list ! slot order_list t)])
      else Inl IndexError)"

section \<open>Matching\<close>

text \<open>
  The \<^verbatim>\<open>Buy\<close> loop of \<^verbatim>\<open>match_orders\<close>, on the linked list \<^verbatim>\<open>self.sell_orders[ticker]\<close>.
  It returns the trades, the incoming order with its quantity as the loop left it, and
  the linked list as the loop left it. A drained head is unlinked; a head that is not
  drained keeps its place with its quantity cell updated.
\<close>

function buy_loop :: "Order \<Rightarrow> Order list \<Rightarrow> trade list \<Rightarrow> trade list \<times> Order \<times> Order list" where
  "buy_loop new_order [] executed_trades = (executed_trades, new_order, [])"
| "buy_loop new_order (s # rest) executed_trades =
     (if price s \<le> price new_order then
        (let matched_quantity = min (get (quantity new_order)) (get (quantity s));
             trades = executed_trades @ [(price new_order, matched_quantity, ticker new_order)];
             s' = s\<lparr>quantity := snd (subtract (quantity s) matched_quantity)\<rparr>;
             new' = new_order\<lparr>quantity := snd (subtract (quantity new_order) matched_quantity)\<rparr>
         in if fst (subtract (quantity s) matched_quantity) = 0 then
              (if fst (subtract (quantity new_order) matched_quantity) = 0
               then (trades, new', rest)
               else buy_loop new' rest trades)
            else
              (if fst (subtract (quantity new_order) matched_quantity) = 0
               then (trades, new', s' # rest)
               else buy_loop new' (s' # rest) trades))
      else (executed_trades, new_order, s # rest))"
  by pat_completeness auto

termination buy_loop
proof (relation "measure (\<lambda>(new_order, lst, trades). length lst)")
  show "wf (measure (\<lambda>(new_order, lst, trades). length lst))"
    by simp
next
  fix new_order s :: Order and rest :: "Order list" and executed_trades :: "trade list"
    and x xa xb xc
  assume "x = min (get (quantity new_order)) (get (quantity s))"
    "xa = executed_trades @ [(price new_order, x, ticker new_order)]"
    "xc = new_order\<lparr>quantity := snd (subtract (quantity new_order) x)\<rparr>"
  show "((xc, rest, xa), new_order, s # rest, executed_trades)
      \<in> measure (\<lambda>(new_order, lst, trades). length lst)"
    by simp
next
  fix new_order s :: Order and rest :: "Order list" and executed_trades :: "trade list"
    and x xa xb xc
  assume m: "x = min (get (quantity new_order)) (get (quantity s))"
    and "fst (subtract (quantity s) x) \<noteq> 0"
    and "fst (subtract (quantity new_order) x) \<noteq> 0"
  then have False
    by (simp add: subtract_def add_def get_def min_def split: if_splits)
  then show "((xc, xb # rest, xa), new_order, s # rest, executed_trades)
      \<in> measure (\<lambda>(new_order, lst, trades). length lst)" ..
qed

text \<open>
  The \<^verbatim>\<open>Sell\<close> loop of \<^verbatim>\<open>match_orders\<close>, on the linked list \<^verbatim>\<open>self.buy_orders[ticker]\<close>.
  The first statement of its body is \<^verbatim>\<open>min(new_order.quantity, buy_orders.quantity)\<close>
  on the two \<^verbatim>\<open>AtomicInteger\<close> objects themselves (no \<^verbatim>\<open>.get()\<close>). The class defines no
  \<^verbatim>\<open><\<close>, so Python raises \<^verbatim>\<open>TypeError\<close> there: the body never gets past its first
  statement, nothing has been appended or mutated yet, and the exception leaves
  \<^verbatim>\<open>match_orders\<close> and \<^verbatim>\<open>add_order\<close>.
\<close>

fun sell_loop :: "Order \<Rightarrow> Order list \<Rightarrow> trade list \<Rightarrow> error + trade list" where
  "sell_loop new_order [] executed_trades = Inr executed_trades"
| "sell_loop new_order (b # rest) executed_trades =
     (if price b \<ge> price new_order then Inl TypeError else Inr executed_trades)"

text \<open>
  \<^verbatim>\<open>match_orders\<close> mutates the incoming order and the book, also when it raises, so
  both are returned next to the result.
\<close>

definition match_orders :: "Order \<Rightarrow> OrderBook \<Rightarrow> (error + trade list) \<times> Order \<times> OrderBook" where
  "match_orders new_order b =
     (if order_type new_order = Buy then
        (if index_ok (sell_orders b) (ticker new_order) then
           (case buy_loop new_order
                   (sell_orders b ! slot (sell_orders b) (ticker new_order)) [] of
              (trades, new', lst) \<Rightarrow>
                (Inr trades, new',
                 b\<lparr>sell_orders := (sell_orders b)[slot (sell_orders b) (ticker new_order) := lst]\<rparr>))
         else (Inl IndexError, new_order, b))
      else
        (if index_ok (buy_orders b) (ticker new_order) then
           (case sell_loop new_order
                   (buy_orders b ! slot (buy_orders b) (ticker new_order)) [] of
              Inl e \<Rightarrow> (Inl e, new_order, b)
            | Inr trades \<Rightarrow> (Inr trades, new_order, b))
         else (Inl IndexError, new_order, b)))"

section \<open>Submission\<close>

definition add_order ::
  "side \<Rightarrow> int \<Rightarrow> int \<Rightarrow> int \<Rightarrow> OrderBook \<Rightarrow> (error + trade list) \<times> OrderBook" where
  "add_order ot t q p b =
     (let new_order = Order_init ot t q p in
      case match_orders new_order b of
        (Inl e, new', b') \<Rightarrow> (Inl e, b')
      | (Inr executed_trades, new', b') \<Rightarrow>
          if get (quantity new') > 0 then
            (if ot = Buy then
               (case insert_order (buy_orders b') t new' of
                  Inl e \<Rightarrow> (Inl e, b')
                | Inr l \<Rightarrow> (Inr executed_trades, b'\<lparr>buy_orders := l\<rparr>))
             else
               (case insert_order (sell_orders b') t new' of
                  Inl e \<Rightarrow> (Inl e, b')
                | Inr l \<Rightarrow> (Inr executed_trades, b'\<lparr>sell_orders := l\<rparr>)))
          else (Inr executed_trades, b'))"

text \<open>
  A driver that submits a list of orders one after the other, as \<^verbatim>\<open>simulate_trading\<close>
  does, and collects the executed trades. An exception of \<^verbatim>\<open>add_order\<close> ends the run.
\<close>

fun submit_all ::
  "(side \<times> int \<times> int \<times> int) list \<Rightarrow> OrderBook \<Rightarrow> (error + trade list) \<times> OrderBook" where
  "submit_all [] b = (Inr [], b)"
| "submit_all ((ot, t, q, p) # rest) b =
     (case add_order ot t q p b of
        (Inl e, b') \<Rightarrow> (Inl e, b')
      | (Inr trades, b') \<Rightarrow>
          (case submit_all rest b' of
             (Inl e, b'') \<Rightarrow> (Inl e, b'')
           | (Inr trades', b'') \<Rightarrow> (Inr (trades @ trades'), b'')))"

section \<open>Notions used by the properties\<close>

text \<open>The array \<^verbatim>\<open>add_order\<close> inserts into, and the array \<^verbatim>\<open>match_orders\<close> matches against.\<close>

definition own_side :: "side \<Rightarrow> OrderBook \<Rightarrow> Order list list" where
  "own_side ot b = (if ot = Buy then buy_orders b else sell_orders b)"

definition opposite_side :: "side \<Rightarrow> OrderBook \<Rightarrow> Order list list" where
  "opposite_side ot b = (if ot = Buy then sell_orders b else buy_orders b)"

text \<open>
  \<open>beats new_order n\<close>: the resting order \<open>n\<close> has a strictly better price than
  \<open>new_order\<close> on the side of \<open>new_order\<close> (higher for Buy, lower for Sell).
\<close>

definition beats :: "Order \<Rightarrow> Order \<Rightarrow> bool" where
  "beats new_order n \<longleftrightarrow>
     (order_type new_order = Buy \<and> price n > price new_order)
     \<or> (order_type new_order = Sell \<and> price n < price new_order)"

text \<open>
  The Book Side invariant: every linked list is ordered best price first (descending
  for Buy, ascending for Sell) and every resting order has a positive quantity.
\<close>

definition side_sorted :: "side \<Rightarrow> Order list \<Rightarrow> bool" where
  "side_sorted sd xs =
     (if sd = Buy then sorted_wrt (\<lambda>x y. price x \<ge> price y) xs
      else sorted_wrt (\<lambda>x y. price x \<le> price y) xs)"

definition all_positive :: "Order list \<Rightarrow> bool" where
  "all_positive xs = list_all (\<lambda>x. 0 < get (quantity x)) xs"

definition book_inv :: "OrderBook \<Rightarrow> bool" where
  "book_inv b \<longleftrightarrow>
     list_all (\<lambda>l. side_sorted Buy l \<and> all_positive l) (buy_orders b)
     \<and> list_all (\<lambda>l. side_sorted Sell l \<and> all_positive l) (sell_orders b)"

text \<open>
  The remaining quantity resting for ticker \<open>t\<close> on both sides, and the quantity of a
  list of trades.
\<close>

definition resting_sum :: "Order list \<Rightarrow> int" where
  "resting_sum xs = sum_list (map (\<lambda>x. get (quantity x)) xs)"

definition resting :: "OrderBook \<Rightarrow> int \<Rightarrow> int" where
  "resting b t =
     resting_sum (buy_orders b ! slot (buy_orders b) t)
     + resting_sum (sell_orders b ! slot (sell_orders b) t)"

definition fill_sum :: "trade list \<Rightarrow> int" where
  "fill_sum trades = sum_list (map (\<lambda>tr. fst (snd tr)) trades)"

text \<open>
  A submission \<open>(order_type, ticker, quantity, price)\<close> for ticker \<open>t\<close> whose quantity is
  positive and fits the \<^verbatim>\<open>c_int\<close> cell, and the quantity submitted by a list of them.
\<close>

definition valid_on :: "int \<Rightarrow> side \<times> int \<times> int \<times> int \<Rightarrow> bool" where
  "valid_on t s \<longleftrightarrow> fst (snd s) = t \<and> 0 < fst (snd (snd s)) \<and> fst (snd (snd s)) < 2147483648"

definition submitted_sum :: "(side \<times> int \<times> int \<times> int) list \<Rightarrow> int" where
  "submitted_sum subs = sum_list (map (\<lambda>s. fst (snd (snd s))) subs)"

section \<open>The quantity cell\<close>

lemma add_check_holds: "sint (word_of_int (sint (a :: AtomicInteger)) :: AtomicInteger) = sint a"
  by simp

lemma subtract_fst: "fst (subtract a d) = sint a - d"
  by (simp add: subtract_def add_def)

lemma subtract_snd: "snd (subtract a d) = word_of_int (sint a - d)"
  by (simp add: subtract_def add_def)

lemma sint_word_of_int_32:
  "- 2147483648 \<le> k \<Longrightarrow> k < 2147483648 \<Longrightarrow> sint (word_of_int k :: 32 word) = k"
  by (simp add: sint_sbintrunc' signed_take_bit_int_eq_self)

lemma sint_32_bounds: "- 2147483648 \<le> sint (a :: 32 word) \<and> sint a < 2147483648"
  using sint_ge [of a] sint_lt [of a] by simp

section \<open>The Buy loop\<close>

text \<open>
  One iteration of the loop, by the three ways the two quantities compare: the resting
  order is drained and the loop goes on, both are drained, or the incoming order is
  drained and the resting order keeps the difference.
\<close>

lemma buy_loop_Cons:
  "buy_loop new_order (s # rest) tr =
     (if price s \<le> price new_order then
        (if sint (quantity s) < sint (quantity new_order) then
           buy_loop (new_order\<lparr>quantity := quantity new_order - quantity s\<rparr>) rest
             (tr @ [(price new_order, sint (quantity s), ticker new_order)])
         else if sint (quantity s) = sint (quantity new_order) then
           (tr @ [(price new_order, sint (quantity s), ticker new_order)],
            new_order\<lparr>quantity := 0\<rparr>, rest)
         else
           (tr @ [(price new_order, sint (quantity new_order), ticker new_order)],
            new_order\<lparr>quantity := 0\<rparr>,
            s\<lparr>quantity := quantity s - quantity new_order\<rparr> # rest))
      else (tr, new_order, s # rest))"
  by (simp add: Let_def subtract_fst subtract_snd get_def min_def)

lemma sint_diff_32:
  fixes a b :: "32 word"
  assumes "0 \<le> sint b" "sint b \<le> sint a"
  shows "sint (a - b) = sint a - sint b"
proof -
  have "a - b = word_of_int (sint a - sint b)" by simp
  moreover have "sint (word_of_int (sint a - sint b) :: 32 word) = sint a - sint b"
    using assms sint_32_bounds [of a] sint_32_bounds [of b]
    by (intro sint_word_of_int_32) linarith+
  ultimately show ?thesis by simp
qed

lemma buy_loop_trades:
  "buy_loop new_order lst tr = (tr', new', lst') \<Longrightarrow>
     \<exists>ms. tr' = tr @ map (\<lambda>m. (price new_order, m, ticker new_order)) ms"
proof (induction lst arbitrary: new_order tr)
  case Nil
  then show ?case by simp
next
  case (Cons s rest)
  show ?case
  proof (cases "price s \<le> price new_order \<and> sint (quantity s) < sint (quantity new_order)")
    case True
    with Cons.prems have "buy_loop (new_order\<lparr>quantity := quantity new_order - quantity s\<rparr>) rest
        (tr @ [(price new_order, sint (quantity s), ticker new_order)]) = (tr', new', lst')"
      by (simp add: buy_loop_Cons del: buy_loop.simps)
    from Cons.IH [OF this] obtain ms where
      "tr' = (tr @ [(price new_order, sint (quantity s), ticker new_order)])
             @ map (\<lambda>m. (price new_order, m, ticker new_order)) ms"
      by auto
    then have "tr' = tr @ map (\<lambda>m. (price new_order, m, ticker new_order)) (sint (quantity s) # ms)"
      by simp
    then show ?thesis by blast
  next
    case False
    with Cons.prems have
      "tr' = tr \<or> tr' = tr @ map (\<lambda>m. (price new_order, m, ticker new_order)) [sint (quantity s)]
       \<or> tr' = tr @ map (\<lambda>m. (price new_order, m, ticker new_order)) [sint (quantity new_order)]"
      by (auto simp add: buy_loop_Cons simp del: buy_loop.simps split: if_splits)
    then show ?thesis
      by (metis append_Nil2 list.simps(8))
  qed
qed

lemma buy_loop_fields:
  "buy_loop new_order lst tr = (tr', new', lst') \<Longrightarrow>
     price new' = price new_order \<and> ticker new' = ticker new_order
     \<and> order_type new' = order_type new_order"
proof (induction lst arbitrary: new_order tr)
  case Nil
  then show ?case by auto
next
  case (Cons s rest)
  show ?case
  proof (cases "price s \<le> price new_order \<and> sint (quantity s) < sint (quantity new_order)")
    case True
    with Cons.prems have "buy_loop (new_order\<lparr>quantity := quantity new_order - quantity s\<rparr>) rest
        (tr @ [(price new_order, sint (quantity s), ticker new_order)]) = (tr', new', lst')"
      by (simp add: buy_loop_Cons del: buy_loop.simps)
    from Cons.IH [OF this] show ?thesis by simp
  next
    case False
    with Cons.prems show ?thesis
      by (auto simp add: buy_loop_Cons simp del: buy_loop.simps split: if_splits)
  qed
qed

lemma buy_loop_prices:
  "buy_loop new_order lst tr = (tr', new', lst') \<Longrightarrow>
     \<exists>k. map price lst' = drop k (map price lst)"
proof (induction lst arbitrary: new_order tr)
  case Nil
  then show ?case by auto
next
  case (Cons s rest)
  show ?case
  proof (cases "price s \<le> price new_order \<and> sint (quantity s) < sint (quantity new_order)")
    case True
    with Cons.prems have "buy_loop (new_order\<lparr>quantity := quantity new_order - quantity s\<rparr>) rest
        (tr @ [(price new_order, sint (quantity s), ticker new_order)]) = (tr', new', lst')"
      by (simp add: buy_loop_Cons del: buy_loop.simps)
    from Cons.IH [OF this] obtain k where "map price lst' = drop k (map price rest)" by blast
    then have "map price lst' = drop (Suc k) (map price (s # rest))" by simp
    then show ?thesis by blast
  next
    case False
    with Cons.prems have "map price lst' = drop 0 (map price (s # rest))
        \<or> map price lst' = drop (Suc 0) (map price (s # rest))"
      by (auto simp add: buy_loop_Cons simp del: buy_loop.simps split: if_splits)
    then show ?thesis by blast
  qed
qed

lemma buy_loop_positive:
  "buy_loop new_order lst tr = (tr', new', lst') \<Longrightarrow> all_positive lst \<Longrightarrow>
   0 \<le> sint (quantity new_order) \<Longrightarrow>
     all_positive lst' \<and> 0 \<le> sint (quantity new') \<and> sint (quantity new') \<le> sint (quantity new_order)"
proof (induction lst arbitrary: new_order tr)
  case Nil
  then show ?case by auto
next
  case (Cons s rest)
  from Cons.prems(2) have pos: "0 < sint (quantity s)" and rest: "all_positive rest"
    by (simp_all add: all_positive_def get_def)
  show ?case
  proof (cases "price s \<le> price new_order \<and> sint (quantity s) < sint (quantity new_order)")
    case True
    with Cons.prems have run: "buy_loop (new_order\<lparr>quantity := quantity new_order - quantity s\<rparr>) rest
        (tr @ [(price new_order, sint (quantity s), ticker new_order)]) = (tr', new', lst')"
      by (simp add: buy_loop_Cons del: buy_loop.simps)
    have d: "sint (quantity new_order - quantity s) = sint (quantity new_order) - sint (quantity s)"
      using pos True by (intro sint_diff_32) simp_all
    from Cons.IH [OF run rest] d pos True show ?thesis by simp
  next
    case False
    have d: "sint (quantity s - quantity new_order) = sint (quantity s) - sint (quantity new_order)"
      if "sint (quantity new_order) \<le> sint (quantity s)"
      using that Cons.prems(3) by (intro sint_diff_32) simp_all
    from False Cons.prems rest pos d show ?thesis
      by (auto simp add: buy_loop_Cons all_positive_def get_def simp del: buy_loop.simps split: if_splits)
  qed
qed

lemma buy_loop_conserves:
  "buy_loop new_order lst tr = (tr', new', lst') \<Longrightarrow> all_positive lst \<Longrightarrow>
   0 \<le> sint (quantity new_order) \<Longrightarrow>
     resting_sum lst' + sint (quantity new') + 2 * fill_sum tr'
       = resting_sum lst + sint (quantity new_order) + 2 * fill_sum tr"
proof (induction lst arbitrary: new_order tr)
  case Nil
  then show ?case by auto
next
  case (Cons s rest)
  from Cons.prems(2) have pos: "0 < sint (quantity s)" and rest: "all_positive rest"
    by (simp_all add: all_positive_def get_def)
  show ?case
  proof (cases "price s \<le> price new_order \<and> sint (quantity s) < sint (quantity new_order)")
    case True
    with Cons.prems have run: "buy_loop (new_order\<lparr>quantity := quantity new_order - quantity s\<rparr>) rest
        (tr @ [(price new_order, sint (quantity s), ticker new_order)]) = (tr', new', lst')"
      by (simp add: buy_loop_Cons del: buy_loop.simps)
    have d: "sint (quantity new_order - quantity s) = sint (quantity new_order) - sint (quantity s)"
      using pos True by (intro sint_diff_32) simp_all
    from Cons.IH [OF run rest] d pos True show ?thesis
      by (simp add: resting_sum_def fill_sum_def get_def)
  next
    case False
    have d: "sint (quantity s - quantity new_order) = sint (quantity s) - sint (quantity new_order)"
      if "sint (quantity new_order) \<le> sint (quantity s)"
      using that Cons.prems(3) by (intro sint_diff_32) simp_all
    from False Cons.prems rest pos d show ?thesis
      by (auto simp add: buy_loop_Cons resting_sum_def fill_sum_def get_def
          simp del: buy_loop.simps split: if_splits)
  qed
qed

lemma buy_loop_exit:
  "buy_loop new_order lst tr = (tr', new', lst') \<Longrightarrow>
     sint (quantity new') = 0 \<or> lst' = [] \<or> price new_order < price (hd lst')"
proof (induction lst arbitrary: new_order tr)
  case Nil
  then show ?case by auto
next
  case (Cons s rest)
  show ?case
  proof (cases "price s \<le> price new_order \<and> sint (quantity s) < sint (quantity new_order)")
    case True
    with Cons.prems have "buy_loop (new_order\<lparr>quantity := quantity new_order - quantity s\<rparr>) rest
        (tr @ [(price new_order, sint (quantity s), ticker new_order)]) = (tr', new', lst')"
      by (simp add: buy_loop_Cons del: buy_loop.simps)
    from Cons.IH [OF this] show ?thesis by simp
  next
    case False
    with Cons.prems show ?thesis
      by (auto simp add: buy_loop_Cons simp del: buy_loop.simps split: if_splits)
  qed
qed

lemma buy_loop_zero:
  "sint (quantity new_order) = 0 \<Longrightarrow> all_positive lst \<Longrightarrow>
     buy_loop new_order lst tr =
       (if lst \<noteq> [] \<and> price (hd lst) \<le> price new_order
        then tr @ [(price new_order, 0, ticker new_order)] else tr,
        new_order, lst)"
proof (cases lst)
  case Nil
  then show ?thesis by simp
next
  case (Cons s rest)
  assume z: "sint (quantity new_order) = 0" and "all_positive lst"
  with Cons have pos: "0 < sint (quantity s)"
    by (simp add: all_positive_def get_def)
  have "word_of_int (sint (quantity new_order)) = quantity new_order"
    by simp
  with z have q0: "quantity new_order = 0"
    by simp
  with Cons pos show ?thesis
    by (simp add: buy_loop_Cons del: buy_loop.simps)
qed

text \<open>
  The loop consumes the list from its head: what it leaves is a tail of the list, the
  first order of it with a reduced quantity at most. Orders behind a prefix are
  touched only when the whole prefix has been consumed.
\<close>

lemma buy_loop_shape:
  "buy_loop incoming zs tr = (tr', incoming', lst') \<Longrightarrow>
     (\<exists>k. lst' = drop k zs)
     \<or> (\<exists>k r. k < length zs \<and> lst' = (zs ! k)\<lparr>quantity := r\<rparr> # drop (Suc k) zs)"
proof (induction zs arbitrary: incoming tr)
  case Nil
  then show ?case by simp
next
  case (Cons s rest)
  show ?case
  proof (cases "price s \<le> price incoming \<and> sint (quantity s) < sint (quantity incoming)")
    case True
    with Cons.prems have "buy_loop (incoming\<lparr>quantity := quantity incoming - quantity s\<rparr>) rest
        (tr @ [(price incoming, sint (quantity s), ticker incoming)]) = (tr', incoming', lst')"
      by (simp add: buy_loop_Cons del: buy_loop.simps)
    from Cons.IH [OF this] show ?thesis
    proof
      assume "\<exists>k. lst' = drop k rest"
      then obtain k where "lst' = drop (Suc k) (s # rest)" by auto
      then show ?thesis by blast
    next
      assume "\<exists>k r. k < length rest \<and> lst' = (rest ! k)\<lparr>quantity := r\<rparr> # drop (Suc k) rest"
      then obtain k r where "Suc k < length (s # rest)"
        "lst' = ((s # rest) ! Suc k)\<lparr>quantity := r\<rparr> # drop (Suc (Suc k)) (s # rest)"
        by auto
      then show ?thesis by blast
    qed
  next
    case False
    with Cons.prems have "lst' = drop 0 (s # rest) \<or> lst' = drop (Suc 0) (s # rest)
        \<or> (0 < length (s # rest) \<and>
            lst' = ((s # rest) ! 0)\<lparr>quantity := quantity s - quantity incoming\<rparr> # drop (Suc 0) (s # rest))"
      by (auto simp add: buy_loop_Cons simp del: buy_loop.simps split: if_splits)
    then show ?thesis by blast
  qed
qed

lemma buy_loop_consumes_prefix:
  "buy_loop incoming (xs @ zs) tr = (tr', incoming', lst') \<Longrightarrow>
     (\<exists>pre. lst' = pre @ zs)
     \<or> (\<exists>k. lst' = drop k zs)
     \<or> (\<exists>k r. k < length zs \<and> lst' = (zs ! k)\<lparr>quantity := r\<rparr> # drop (Suc k) zs)"
proof (induction xs arbitrary: incoming tr)
  case Nil
  then show ?case using buy_loop_shape [of incoming zs tr tr' incoming' lst'] by auto
next
  case (Cons s rest)
  show ?case
  proof (cases "price s \<le> price incoming \<and> sint (quantity s) < sint (quantity incoming)")
    case True
    with Cons.prems have "buy_loop (incoming\<lparr>quantity := quantity incoming - quantity s\<rparr>) (rest @ zs)
        (tr @ [(price incoming, sint (quantity s), ticker incoming)]) = (tr', incoming', lst')"
      by (simp add: buy_loop_Cons del: buy_loop.simps)
    from Cons.IH [OF this] show ?thesis .
  next
    case False
    with Cons.prems have "lst' = (s # rest) @ zs \<or> lst' = rest @ zs
        \<or> lst' = (s\<lparr>quantity := quantity s - quantity incoming\<rparr> # rest) @ zs"
      by (auto simp add: buy_loop_Cons simp del: buy_loop.simps split: if_splits)
    then show ?thesis by blast
  qed
qed

section \<open>Insertion: position, order, quantities\<close>

text \<open>
  Both loops of \<^verbatim>\<open>_insert_order\<close> walk past the orders with a strictly better price
  and link the new order in front of the first order that has not.
\<close>

lemma insert_traverse_eq:
  "insert_traverse new_order xs
     = takeWhile (beats new_order) xs @ new_order # dropWhile (beats new_order) xs"
  by (induction xs) (simp_all add: beats_def)

lemma insert_chain_eq:
  "insert_chain new_order xs
     = takeWhile (beats new_order) xs @ new_order # dropWhile (beats new_order) xs"
proof (cases xs)
  case Nil
  then show ?thesis by simp
next
  case (Cons head rest)
  show ?thesis
  proof (cases "order_type new_order")
    case Buy
    with Cons show ?thesis
      by (auto simp add: insert_traverse_eq beats_def)
  next
    case Sell
    with Cons show ?thesis
      by (auto simp add: insert_traverse_eq beats_def)
  qed
qed

lemma set_insert_chain: "set (insert_chain new_order xs) = insert new_order (set xs)"
proof -
  have "set (takeWhile (beats new_order) xs) \<union> set (dropWhile (beats new_order) xs) = set xs"
    by (metis set_append takeWhile_dropWhile_id)
  then show ?thesis
    unfolding insert_chain_eq by auto
qed

lemma all_positive_insert_chain:
  "all_positive (insert_chain new_order xs) \<longleftrightarrow> 0 < get (quantity new_order) \<and> all_positive xs"
  by (simp add: all_positive_def list_all_iff set_insert_chain)

lemma resting_sum_insert_chain:
  "resting_sum (insert_chain new_order xs) = get (quantity new_order) + resting_sum xs"
proof -
  have "resting_sum (takeWhile (beats new_order) xs) + resting_sum (dropWhile (beats new_order) xs)
      = resting_sum xs"
    unfolding resting_sum_def by (metis map_append sum_list_append takeWhile_dropWhile_id)
  then show ?thesis
    unfolding insert_chain_eq by (simp add: resting_sum_def)
qed

lemma side_sorted_insert_chain:
  assumes "side_sorted (order_type new_order) xs"
  shows "side_sorted (order_type new_order) (insert_chain new_order xs)"
proof -
  let ?P = "beats new_order"
  have xs: "xs = takeWhile ?P xs @ dropWhile ?P xs" by simp
  have front: "\<forall>x\<in>set (takeWhile ?P xs). ?P x"
    by (auto dest: set_takeWhileD)
  have hd_rear: "dropWhile ?P xs \<noteq> [] \<Longrightarrow> \<not> ?P (hd (dropWhile ?P xs))"
    by (simp add: hd_dropWhile)
  show ?thesis
  proof (cases "order_type new_order")
    case Buy
    let ?R = "\<lambda>x y :: Order. price x \<ge> price y"
    from assms Buy have s: "sorted_wrt ?R (takeWhile ?P xs @ dropWhile ?P xs)"
      by (simp add: side_sorted_def)
    then have sb: "sorted_wrt ?R (dropWhile ?P xs)" and sf: "sorted_wrt ?R (takeWhile ?P xs)"
      and cross: "\<forall>x\<in>set (takeWhile ?P xs). \<forall>y\<in>set (dropWhile ?P xs). ?R x y"
      unfolding sorted_wrt_append by blast+
    have rear: "\<forall>y\<in>set (dropWhile ?P xs). price y \<le> price new_order"
    proof
      fix y
      assume y: "y \<in> set (dropWhile ?P xs)"
      then have ne: "dropWhile ?P xs \<noteq> []"
        by (metis empty_iff empty_set)
      then obtain d ds where dd: "dropWhile ?P xs = d # ds"
        by (meson neq_Nil_conv)
      from hd_rear [OF ne] have "\<not> ?P d" unfolding dd by simp
      with Buy have "price d \<le> price new_order" by (simp add: beats_def)
      moreover from sb have "\<forall>z\<in>set ds. price z \<le> price d" unfolding dd by simp
      ultimately show "price y \<le> price new_order" using y unfolding dd by auto
    qed
    from front Buy have front': "\<forall>x\<in>set (takeWhile ?P xs). price new_order \<le> price x"
      by (auto simp add: beats_def)
    have "sorted_wrt ?R (takeWhile ?P xs @ new_order # dropWhile ?P xs)"
      unfolding sorted_wrt_append using sf sb cross rear front' by auto
    with Buy show ?thesis by (simp add: side_sorted_def insert_chain_eq)
  next
    case Sell
    let ?R = "\<lambda>x y :: Order. price x \<le> price y"
    from assms Sell have s: "sorted_wrt ?R (takeWhile ?P xs @ dropWhile ?P xs)"
      by (simp add: side_sorted_def)
    then have sb: "sorted_wrt ?R (dropWhile ?P xs)" and sf: "sorted_wrt ?R (takeWhile ?P xs)"
      and cross: "\<forall>x\<in>set (takeWhile ?P xs). \<forall>y\<in>set (dropWhile ?P xs). ?R x y"
      unfolding sorted_wrt_append by blast+
    have rear: "\<forall>y\<in>set (dropWhile ?P xs). price new_order \<le> price y"
    proof
      fix y
      assume y: "y \<in> set (dropWhile ?P xs)"
      then have ne: "dropWhile ?P xs \<noteq> []"
        by (metis empty_iff empty_set)
      then obtain d ds where dd: "dropWhile ?P xs = d # ds"
        by (meson neq_Nil_conv)
      from hd_rear [OF ne] have "\<not> ?P d" unfolding dd by simp
      with Sell have "price new_order \<le> price d" by (simp add: beats_def)
      moreover from sb have "\<forall>z\<in>set ds. price d \<le> price z" unfolding dd by simp
      ultimately show "price new_order \<le> price y" using y unfolding dd by auto
    qed
    from front Sell have front': "\<forall>x\<in>set (takeWhile ?P xs). price x \<le> price new_order"
      by (auto simp add: beats_def)
    have "sorted_wrt ?R (takeWhile ?P xs @ new_order # dropWhile ?P xs)"
      unfolding sorted_wrt_append using sf sb cross rear front' by auto
    with Sell show ?thesis by (simp add: side_sorted_def insert_chain_eq)
  qed
qed

lemma side_sorted_prices:
  "side_sorted sd xs \<longleftrightarrow>
     (if sd = Buy then sorted_wrt (\<ge>) (map price xs) else sorted_wrt (\<le>) (map price xs))"
  by (simp add: side_sorted_def sorted_wrt_map)

lemma side_sorted_suffix:
  assumes "side_sorted sd xs" "map price ys = drop k (map price xs)"
  shows "side_sorted sd ys"
  using assms by (simp add: side_sorted_prices)

section \<open>\<^verbatim>\<open>add_order\<close> by side\<close>

text \<open>
  What \<^verbatim>\<open>add_order\<close> computes for a Buy and for a Sell, with \<^verbatim>\<open>match_orders\<close> and
  \<^verbatim>\<open>_insert_order\<close> unfolded.
\<close>

lemma add_order_Buy:
  "add_order Buy t q p b =
     (if index_ok (sell_orders b) t then
        (case buy_loop (Order_init Buy t q p) (sell_orders b ! slot (sell_orders b) t) [] of
           (tr, new', lst') \<Rightarrow>
             if 0 < sint (quantity new') then
               (if index_ok (buy_orders b) t then
                  (Inr tr,
                   b\<lparr>sell_orders := (sell_orders b)[slot (sell_orders b) t := lst'],
                     buy_orders := (buy_orders b)[slot (buy_orders b) t :=
                       insert_chain new' (buy_orders b ! slot (buy_orders b) t)]\<rparr>)
                else (Inl IndexError, b\<lparr>sell_orders := (sell_orders b)[slot (sell_orders b) t := lst']\<rparr>))
             else (Inr tr, b\<lparr>sell_orders := (sell_orders b)[slot (sell_orders b) t := lst']\<rparr>))
      else (Inl IndexError, b))"
  by (simp add: add_order_def match_orders_def Order_init_def insert_order_def get_def
      split: prod.splits)

lemma add_order_Sell:
  "add_order Sell t q p b =
     (if index_ok (buy_orders b) t then
        (if buy_orders b ! slot (buy_orders b) t \<noteq> []
            \<and> p \<le> price (hd (buy_orders b ! slot (buy_orders b) t))
         then (Inl TypeError, b)
         else if 0 < sint (word_of_int q :: 32 word) then
           (if index_ok (sell_orders b) t then
              (Inr [],
               b\<lparr>sell_orders := (sell_orders b)[slot (sell_orders b) t :=
                    insert_chain (Order_init Sell t q p) (sell_orders b ! slot (sell_orders b) t)]\<rparr>)
            else (Inl IndexError, b))
         else (Inr [], b))
      else (Inl IndexError, b))"
  by (cases "buy_orders b ! slot (buy_orders b) t")
     (simp_all add: add_order_def match_orders_def Order_init_def insert_order_def get_def
        AtomicInteger_init_def)

lemma slot_less: "index_ok xs t \<Longrightarrow> slot xs t < length xs"
  by (auto simp add: index_ok_def slot_def)

lemma slot_nonneg: "0 \<le> t \<Longrightarrow> slot xs t = nat t"
  by (simp add: slot_def)

lemma list_all_update: "list_all P xs \<Longrightarrow> P x \<Longrightarrow> list_all P (xs[k := x])"
  by (auto simp add: list_all_iff dest: set_update_subset_insert [THEN subsetD])

lemma list_all_nth: "list_all P xs \<Longrightarrow> k < length xs \<Longrightarrow> P (xs ! k)"
  by (simp add: list_all_iff)

lemma slot_inj_nonneg: "0 \<le> t \<Longrightarrow> 0 \<le> t' \<Longrightarrow> t' \<noteq> t \<Longrightarrow> slot xs t' \<noteq> slot ys t"
  by (simp add: slot_def)

lemma match_orders_own_side:
  "own_side (order_type new_order) (snd (snd (match_orders new_order b)))
     = own_side (order_type new_order) b"
  by (cases "order_type new_order")
     (simp_all add: match_orders_def own_side_def split: prod.splits sum.splits)

lemma match_orders_opposite_side:
  "opposite_side (order_type new_order) (snd (snd (match_orders new_order b))) ! j
     = opposite_side (order_type new_order) b ! j"
  if "j \<noteq> slot (opposite_side (order_type new_order) b) (ticker new_order)"
  using that
  by (cases "order_type new_order")
     (simp_all add: match_orders_def opposite_side_def split: prod.splits sum.splits)

lemma list_update_same: "xs ! k = v \<Longrightarrow> xs[k := v] = xs"
  by (metis list_update_id)

lemma buy_cannot_fail:
  assumes "index_ok (sell_orders b) t" "index_ok (buy_orders b) t"
  shows "\<exists>fills b'. add_order Buy t q p b = (Inr fills, b')"
  using assms by (simp add: add_order_Buy split: prod.splits)

section \<open>The Book Side invariant under \<^verbatim>\<open>add_order\<close>\<close>

lemma book_inv_buy_slot:
  "book_inv b \<Longrightarrow> index_ok (buy_orders b) t \<Longrightarrow>
     side_sorted Buy (buy_orders b ! slot (buy_orders b) t)
     \<and> all_positive (buy_orders b ! slot (buy_orders b) t)"
  by (auto simp add: book_inv_def dest: list_all_nth slot_less)

lemma book_inv_sell_slot:
  "book_inv b \<Longrightarrow> index_ok (sell_orders b) t \<Longrightarrow>
     side_sorted Sell (sell_orders b ! slot (sell_orders b) t)
     \<and> all_positive (sell_orders b ! slot (sell_orders b) t)"
  by (auto simp add: book_inv_def dest: list_all_nth slot_less)

lemma Order_init_quantity:
  "0 \<le> q \<Longrightarrow> q < 2147483648 \<Longrightarrow> sint (quantity (Order_init ot t q p)) = q"
  by (simp add: Order_init_def AtomicInteger_init_def sint_word_of_int_32)

lemma book_inv_add_order:
  assumes inv: "book_inv b" and q: "0 \<le> q" "q < 2147483648"
  shows "book_inv (snd (add_order ot t q p b))"
proof (cases ot)
  case Buy
  show ?thesis
  proof (cases "index_ok (sell_orders b) t")
    case False
    with Buy inv show ?thesis by (simp add: add_order_Buy)
  next
    case ok: True
    let ?k = "slot (sell_orders b) t"
    let ?j = "slot (buy_orders b) t"
    obtain tr new' lst' where
      run: "buy_loop (Order_init Buy t q p) (sell_orders b ! ?k) [] = (tr, new', lst')"
      by (cases "buy_loop (Order_init Buy t q p) (sell_orders b ! ?k) []") auto
    from book_inv_sell_slot [OF inv ok] have
      srt: "side_sorted Sell (sell_orders b ! ?k)" and pos: "all_positive (sell_orders b ! ?k)"
      by simp_all
    from q have q0: "0 \<le> sint (quantity (Order_init Buy t q p))"
      by (simp add: Order_init_quantity)
    from buy_loop_positive [OF run pos q0] have pos': "all_positive lst'" by simp
    from buy_loop_prices [OF run] obtain k where "map price lst' = drop k (map price (sell_orders b ! ?k))"
      by blast
    with srt have srt': "side_sorted Sell lst'" by (rule side_sorted_suffix)
    from inv pos' srt' have sell': "list_all (\<lambda>l. side_sorted Sell l \<and> all_positive l)
        ((sell_orders b)[?k := lst'])"
      by (simp add: book_inv_def list_all_update)
    from buy_loop_fields [OF run] have ot': "order_type new' = Buy"
      by (simp add: Order_init_def)
    have buy': "list_all (\<lambda>l. side_sorted Buy l \<and> all_positive l)
        ((buy_orders b)[?j := insert_chain new' (buy_orders b ! ?j)])"
      if "0 < sint (quantity new')" "index_ok (buy_orders b) t"
    proof -
      from book_inv_buy_slot [OF inv that(2)] have
        "side_sorted (order_type new') (buy_orders b ! ?j)" "all_positive (buy_orders b ! ?j)"
        by (simp_all add: ot')
      with that(1) have "side_sorted Buy (insert_chain new' (buy_orders b ! ?j))
          \<and> all_positive (insert_chain new' (buy_orders b ! ?j))"
        using side_sorted_insert_chain [of new' "buy_orders b ! ?j"]
        by (simp add: all_positive_insert_chain get_def ot')
      with inv show ?thesis by (simp add: book_inv_def list_all_update)
    qed
    from inv have buy0: "list_all (\<lambda>l. side_sorted Buy l \<and> all_positive l) (buy_orders b)"
      by (simp add: book_inv_def)
    from Buy ok run sell' buy' buy0 show ?thesis
      by (simp add: add_order_Buy book_inv_def)
  qed
next
  case Sell
  let ?k = "slot (sell_orders b) t"
  have sell': "list_all (\<lambda>l. side_sorted Sell l \<and> all_positive l)
      ((sell_orders b)[?k := insert_chain (Order_init Sell t q p) (sell_orders b ! ?k)])"
    if "0 < sint (word_of_int q :: 32 word)" "index_ok (sell_orders b) t"
  proof -
    have ot': "order_type (Order_init Sell t q p) = Sell" by (simp add: Order_init_def)
    from book_inv_sell_slot [OF inv that(2)] have
      "side_sorted (order_type (Order_init Sell t q p)) (sell_orders b ! ?k)"
      "all_positive (sell_orders b ! ?k)"
      by (simp_all add: ot')
    with that(1) have "side_sorted Sell (insert_chain (Order_init Sell t q p) (sell_orders b ! ?k))
        \<and> all_positive (insert_chain (Order_init Sell t q p) (sell_orders b ! ?k))"
      using side_sorted_insert_chain [of "Order_init Sell t q p" "sell_orders b ! ?k"]
      by (simp add: all_positive_insert_chain get_def ot')
        (simp add: Order_init_def AtomicInteger_init_def)
    with inv show ?thesis by (simp add: book_inv_def list_all_update)
  qed
  from inv have "list_all (\<lambda>l. side_sorted Buy l \<and> all_positive l) (buy_orders b)"
    by (simp add: book_inv_def)
  with Sell inv sell' show ?thesis
    by (simp add: add_order_Sell book_inv_def)
qed

section \<open>Crossing on the Buy side\<close>

text \<open>
  A Buy that no resting Sell crosses returns no trade and rests with its quantity. After
  any Buy, either nothing was inserted on the Buy side or every Sell still resting for
  the ticker has a price above the price of the Buy.
\<close>

lemma buy_without_crossing:
  assumes "index_ok (sell_orders b) t" "index_ok (buy_orders b) t" "0 < q" "q < 2147483648"
    and "sell_orders b ! slot (sell_orders b) t = []
         \<or> p < price (hd (sell_orders b ! slot (sell_orders b) t))"
  shows "add_order Buy t q p b =
           (Inr [], b\<lparr>buy_orders := (buy_orders b)[slot (buy_orders b) t :=
              insert_chain (Order_init Buy t q p) (buy_orders b ! slot (buy_orders b) t)]\<rparr>)"
proof -
  have run: "buy_loop (Order_init Buy t q p) (sell_orders b ! slot (sell_orders b) t) []
      = ([], Order_init Buy t q p, sell_orders b ! slot (sell_orders b) t)"
    using assms(5)
    by (cases "sell_orders b ! slot (sell_orders b) t") (auto simp add: Order_init_def)
  from assms(3,4) have "0 < sint (quantity (Order_init Buy t q p))"
    by (simp add: Order_init_quantity)
  with assms(1,2) run show ?thesis
    by (simp add: add_order_Buy)
qed

lemma buy_crosses_all:
  assumes inv: "book_inv b" and ok: "index_ok (sell_orders b) t"
  shows "buy_orders (snd (add_order Buy t q p b)) = buy_orders b
       \<or> (\<forall>s\<in>set (sell_orders (snd (add_order Buy t q p b)) ! slot (sell_orders b) t).
            p < price s)"
proof -
  let ?k = "slot (sell_orders b) t"
  obtain tr new' lst' where
    run: "buy_loop (Order_init Buy t q p) (sell_orders b ! ?k) [] = (tr, new', lst')"
    by (cases "buy_loop (Order_init Buy t q p) (sell_orders b ! ?k) []") auto
  from ok have k: "?k < length (sell_orders b)" by (rule slot_less)
  from book_inv_sell_slot [OF inv ok] have srt: "side_sorted Sell (sell_orders b ! ?k)" by simp
  from buy_loop_prices [OF run] obtain n where
    "map price lst' = drop n (map price (sell_orders b ! ?k))" by blast
  with srt have srt': "side_sorted Sell lst'" by (rule side_sorted_suffix)
  have rest: "\<forall>s\<in>set lst'. p < price s" if "lst' = [] \<or> p < price (hd lst')"
  proof (cases lst')
    case Nil
    then show ?thesis by simp
  next
    case (Cons d ds)
    with that have "p < price d" by simp
    moreover from srt' Cons have "\<forall>z\<in>set ds. price d \<le> price z"
      by (simp add: side_sorted_def)
    ultimately show ?thesis using Cons by auto
  qed
  from buy_loop_exit [OF run] have
    "sint (quantity new') = 0 \<or> lst' = [] \<or> p < price (hd lst')"
    by (simp add: Order_init_def)
  then show ?thesis
  proof
    assume "sint (quantity new') = 0"
    with ok run show ?thesis by (simp add: add_order_Buy)
  next
    assume "lst' = [] \<or> p < price (hd lst')"
    from rest [OF this] ok run k show ?thesis
      by (simp add: add_order_Buy)
  qed
qed

section \<open>Execution price\<close>

text \<open>
  A Sell of 10 at price 9 rests; a Buy of 10 at price 10 then trades against it. The one
  trade is logged at price 10, the price of the incoming Buy, while the resting Sell it
  consumed has price 9.
\<close>

theorem fill_price_counterexample:
  "fst (add_order Buy 0 10 10 (snd (add_order Sell 0 10 9 OrderBook_init))) = Inr [(10, 10, 0)]
   \<and> map price (sell_orders (snd (add_order Sell 0 10 9 OrderBook_init)) ! 0) = [9]"
  by code_simp

text \<open>
  C1, as the code has it: every trade returned by \<^verbatim>\<open>add_order\<close> carries the price of the
  incoming order (\<^verbatim>\<open>new_order.price\<close>) as its execution price, and the ticker of the
  incoming order.
\<close>

theorem fill_price_is_incoming_price:
  assumes "fst (add_order ot t q p b) = Inr fills"
  shows "\<forall>f\<in>set fills. fst f = p \<and> snd (snd f) = t"
proof (cases ot)
  case Buy
  obtain tr new' lst' where
    run: "buy_loop (Order_init Buy t q p) (sell_orders b ! slot (sell_orders b) t) [] = (tr, new', lst')"
    by (cases "buy_loop (Order_init Buy t q p) (sell_orders b ! slot (sell_orders b) t) []") auto
  from assms Buy run have "fills = tr"
    by (simp add: add_order_Buy split: if_splits)
  moreover from buy_loop_trades [OF run] obtain ms where
    "tr = map (\<lambda>m. (p, m, t)) ms"
    by (auto simp add: Order_init_def)
  ultimately show ?thesis by auto
next
  case Sell
  with assms have "fills = []"
    by (simp add: add_order_Sell split: if_splits)
  then show ?thesis by simp
qed

theorem fill_price_is_incoming_price_witness:
  "fst (add_order Buy 0 10 10 (snd (add_order Sell 0 10 9 OrderBook_init))) = Inr [(10, 10, 0)]
   \<and> list_all (\<lambda>f. fst f = 10 \<and> snd (snd f) = 0) [(10 :: int, 10 :: int, 0 :: int)]"
proof -
  have h: "fst (add_order Buy 0 10 10 (snd (add_order Sell 0 10 9 OrderBook_init)))
      = Inr [(10, 10, 0)]"
    by code_simp
  show ?thesis
    using h fill_price_is_incoming_price [OF h] by simp
qed

section \<open>The Sell branch\<close>

text \<open>
  C2: the matched quantity is the numeric minimum of the two remaining quantities. The
  Buy loop computes it so (\<open>buy_loop\<close>). The Sell loop applies \<^verbatim>\<open>min\<close> to the two
  \<^verbatim>\<open>AtomicInteger\<close> objects: with a Buy of 10 at price 10 resting, a Sell of 5 at price
  10 raises \<^verbatim>\<open>TypeError\<close> where the matched quantity should be 5.
\<close>

theorem sell_min_raises_TypeError:
  "fst (add_order Sell 0 5 10 (snd (add_order Buy 0 10 10 OrderBook_init))) = Inl TypeError"
  by code_simp

text \<open>
  C3: a submission with a positive quantity, a non-negative price and a valid ticker
  cannot fail. A Buy cannot (\<open>buy_cannot_fail\<close>); a Sell of 50 at price 100 for ticker
  7 fails with \<^verbatim>\<open>TypeError\<close> when a Buy at price 105 rests there.
\<close>

theorem valid_sell_submission_fails:
  "fst (add_order Sell 7 50 100 (snd (add_order Buy 7 100 105 OrderBook_init))) = Inl TypeError
   \<and> (0 :: int) < 50 \<and> (0 :: int) \<le> 100 \<and> index_ok (buy_orders OrderBook_init) 7"
  by code_simp

text \<open>
  C6: an incoming order trades against every resting order that crosses it. A Buy does
  (\<open>buy_crosses_all\<close>, \<open>buy_without_crossing\<close>). A Sell of
  10 at price 9 crosses the resting Buy of 10 at price 10; \<^verbatim>\<open>add_order\<close> raises
  \<^verbatim>\<open>TypeError\<close>, no trade is returned, the Buy still rests with its 10 shares and the
  Sell is dropped.
\<close>

theorem crossing_sell_not_matched:
  "add_order Sell 0 10 9 (snd (add_order Buy 0 10 10 OrderBook_init))
     = (Inl TypeError, snd (add_order Buy 0 10 10 OrderBook_init))
   \<and> buy_orders (snd (add_order Buy 0 10 10 OrderBook_init)) ! 0 = [Order_init Buy 0 10 10]"
  by code_simp

section \<open>The Book Side invariant\<close>

text \<open>
  A Sell of 1 at price 10 rests, and the book satisfies the invariant. A Buy of
  2147483648 shares at price 10 is stored in its \<^verbatim>\<open>c_int\<close> cell as -2147483648; the
  loop takes the minimum -2147483648 as the matched quantity, the resting Sell is left
  with 1 + 2147483648 wrapped to -2147483647 shares and stays in the list: a resting
  order with a negative quantity.
\<close>

theorem invariant_overflow_counterexample:
  "book_inv (snd (add_order Sell 0 1 10 OrderBook_init))
   \<and> \<not> book_inv (snd (add_order Buy 0 2147483648 10 (snd (add_order Sell 0 1 10 OrderBook_init))))
   \<and> map (\<lambda>x. get (quantity x))
        (sell_orders (snd (add_order Buy 0 2147483648 10 (snd (add_order Sell 0 1 10 OrderBook_init)))) ! 0)
       = [- 2147483647]"
  by code_simp

text \<open>
  C8, for the quantities the \<^verbatim>\<open>c_int\<close> cell holds without wrapping: if every linked list
  of the book is ordered best price first (descending for Buy, ascending for Sell) and
  holds only orders with a positive quantity, then so is every list of the book that
  \<^verbatim>\<open>add_order\<close> leaves, for every submission with a quantity from 0 to 2147483647,
  whatever its side, ticker and price, and also when \<^verbatim>\<open>add_order\<close> raises.
\<close>

theorem book_inv_preserved:
  "book_inv b \<Longrightarrow> 0 \<le> q \<Longrightarrow> q < 2147483648 \<Longrightarrow> book_inv (snd (add_order ot t q p b))"
  by (rule book_inv_add_order)

theorem book_inv_preserved_witness:
  "book_inv (snd (add_order Sell 0 30 9 OrderBook_init))
   \<and> book_inv (snd (add_order Buy 0 100 10 (snd (add_order Sell 0 30 9 OrderBook_init))))
   \<and> sell_orders (snd (add_order Buy 0 100 10 (snd (add_order Sell 0 30 9 OrderBook_init)))) ! 0 = []
   \<and> map (\<lambda>x. get (quantity x))
        (buy_orders (snd (add_order Buy 0 100 10 (snd (add_order Sell 0 30 9 OrderBook_init)))) ! 0)
       = [70]"
proof -
  have h: "book_inv (snd (add_order Sell 0 30 9 OrderBook_init))"
    by code_simp
  have e: "sell_orders (snd (add_order Buy 0 100 10 (snd (add_order Sell 0 30 9 OrderBook_init)))) ! 0 = []
     \<and> map (\<lambda>x. get (quantity x))
        (buy_orders (snd (add_order Buy 0 100 10 (snd (add_order Sell 0 30 9 OrderBook_init)))) ! 0)
       = [70]"
    by code_simp
  show ?thesis
    using h e book_inv_preserved [OF h, of 100 Buy 0 10] by simp
qed

section \<open>Zero quantity\<close>

text \<open>
  Nothing rejects a quantity of zero. With a Sell of 10 at price 9 resting, a Buy of 0
  shares at price 10 enters the loop and one trade of quantity 0 is returned.
\<close>

theorem zero_quantity_counterexample:
  "fst (add_order Buy 0 0 10 (snd (add_order Sell 0 10 9 OrderBook_init))) = Inr [(10, 0, 0)]"
  by code_simp

text \<open>
  C9, as the code has it: a submission with quantity zero leaves the book as it was (no
  list changes, no resting quantity changes, the order is not inserted), on a book that
  satisfies the Book Side invariant. A Buy of quantity zero returns one trade of
  quantity 0 when the best resting Sell crosses its price and no trade otherwise; a
  Sell of quantity zero that returns, returns no trade.
\<close>

theorem zero_quantity_no_effect:
  assumes "book_inv b"
  shows "snd (add_order ot t 0 p b) = b
    \<and> fst (add_order Buy t 0 p b) =
        (if index_ok (sell_orders b) t then
           Inr (if sell_orders b ! slot (sell_orders b) t \<noteq> []
                   \<and> price (hd (sell_orders b ! slot (sell_orders b) t)) \<le> p
                then [(p, 0, t)] else [])
         else Inl IndexError)
    \<and> (\<forall>fills. fst (add_order Sell t 0 p b) = Inr fills \<longrightarrow> fills = [])"
proof -
  have z: "sint (quantity (Order_init Buy t 0 p)) = 0"
    by (simp add: Order_init_def AtomicInteger_init_def)
  have buy: "buy_loop (Order_init Buy t 0 p) (sell_orders b ! slot (sell_orders b) t) [] =
      (if sell_orders b ! slot (sell_orders b) t \<noteq> []
            \<and> price (hd (sell_orders b ! slot (sell_orders b) t)) \<le> p
       then [(p, 0, t)] else [],
       Order_init Buy t 0 p, sell_orders b ! slot (sell_orders b) t)"
    if "index_ok (sell_orders b) t"
    using buy_loop_zero [OF z, of "sell_orders b ! slot (sell_orders b) t" "[]"]
      book_inv_sell_slot [OF assms that]
    by (simp add: Order_init_def)
  have "snd (add_order ot t 0 p b) = b"
  proof (cases ot)
    case Buy
    with buy z show ?thesis by (simp add: add_order_Buy)
  next
    case Sell
    then show ?thesis by (simp add: add_order_Sell)
  qed
  moreover have "fst (add_order Buy t 0 p b) =
        (if index_ok (sell_orders b) t then
           Inr (if sell_orders b ! slot (sell_orders b) t \<noteq> []
                   \<and> price (hd (sell_orders b ! slot (sell_orders b) t)) \<le> p
                then [(p, 0, t)] else [])
         else Inl IndexError)"
    using buy z by (simp add: add_order_Buy)
  moreover have "\<forall>fills. fst (add_order Sell t 0 p b) = Inr fills \<longrightarrow> fills = []"
    by (simp add: add_order_Sell)
  ultimately show ?thesis by blast
qed

theorem zero_quantity_no_effect_witness:
  "book_inv (snd (add_order Sell 0 10 9 OrderBook_init))
   \<and> snd (add_order Buy 0 0 10 (snd (add_order Sell 0 10 9 OrderBook_init)))
       = snd (add_order Sell 0 10 9 OrderBook_init)
   \<and> fst (add_order Sell 0 0 10 (snd (add_order Sell 0 10 9 OrderBook_init))) = Inr []"
proof -
  have h: "book_inv (snd (add_order Sell 0 10 9 OrderBook_init))"
    by code_simp
  have e: "fst (add_order Sell 0 0 10 (snd (add_order Sell 0 10 9 OrderBook_init))) = Inr []"
    by code_simp
  show ?thesis
    using h e zero_quantity_no_effect [OF h, of Buy 0 10] by simp
qed

section \<open>Other tickers\<close>





section \<open>Orders at the same price\<close>

text \<open>
  A Sell of 1 and then a Sell of 2 are submitted at price 10: the later order is linked
  in front of the earlier one. A Buy of 2 at price 10 then trades 2 shares with the
  later order in one trade, and the earlier order still rests with its 1 share.
\<close>

theorem equal_price_counterexample:
  "sell_orders (snd (add_order Sell 0 2 10 (snd (add_order Sell 0 1 10 OrderBook_init)))) ! 0
     = [Order_init Sell 0 2 10, Order_init Sell 0 1 10]
   \<and> fst (add_order Buy 0 2 10
        (snd (add_order Sell 0 2 10 (snd (add_order Sell 0 1 10 OrderBook_init)))))
     = Inr [(10, 2, 0)]
   \<and> sell_orders (snd (add_order Buy 0 2 10
        (snd (add_order Sell 0 2 10 (snd (add_order Sell 0 1 10 OrderBook_init)))))) ! 0
     = [Order_init Sell 0 1 10]"
  by code_simp

text \<open>
  C4, as the code has it: \<^verbatim>\<open>_insert_order\<close> links the new order behind the resting orders
  with a strictly better price that lead the list, and in front of everything else. So
  every resting order at the price of the new order comes after the new order, and in a
  list ordered best price first no order after the new one has a strictly better price.
  The Buy loop takes resting Sells from the head of the list: when the array is the
  Sell side of a book, a later Buy for the ticker leaves either every order behind the
  new one resting as it was, or only a tail of those orders, the first of them with a
  reduced quantity at most, the new order and all in front of it consumed. Among
  resting Sells at the same price the one submitted last is matched first.
\<close>

theorem insert_before_equal_price:
  assumes "index_ok order_list t"
  shows "insert_order order_list t new_order =
      Inr (order_list[slot order_list t :=
        takeWhile (beats new_order) (order_list ! slot order_list t) @
        new_order # dropWhile (beats new_order) (order_list ! slot order_list t)])
    \<and> (\<forall>x\<in>set (takeWhile (beats new_order) (order_list ! slot order_list t)).
          beats new_order x)
    \<and> (\<forall>x\<in>set (order_list ! slot order_list t). price x = price new_order \<longrightarrow>
          x \<in> set (dropWhile (beats new_order) (order_list ! slot order_list t)))
    \<and> (side_sorted (order_type new_order) (order_list ! slot order_list t) \<longrightarrow>
        (\<forall>x\<in>set (dropWhile (beats new_order) (order_list ! slot order_list t)).
          \<not> beats new_order x))
    \<and> (\<forall>b q' p'.
          sell_orders b = order_list[slot order_list t :=
            takeWhile (beats new_order) (order_list ! slot order_list t) @
            new_order # dropWhile (beats new_order) (order_list ! slot order_list t)] \<longrightarrow>
          (\<exists>pre. sell_orders (snd (add_order Buy t q' p' b)) ! slot order_list t
                  = pre @ dropWhile (beats new_order) (order_list ! slot order_list t))
          \<or> (\<exists>k. sell_orders (snd (add_order Buy t q' p' b)) ! slot order_list t
                  = drop k (dropWhile (beats new_order) (order_list ! slot order_list t)))
          \<or> (\<exists>k r. k < length (dropWhile (beats new_order) (order_list ! slot order_list t))
                \<and> sell_orders (snd (add_order Buy t q' p' b)) ! slot order_list t
                  = (dropWhile (beats new_order) (order_list ! slot order_list t) ! k)
                      \<lparr>quantity := r\<rparr>
                    # drop (Suc k) (dropWhile (beats new_order) (order_list ! slot order_list t))))"
proof -
  let ?l = "order_list ! slot order_list t"
  let ?P = "beats new_order"
  let ?k = "slot order_list t"
  let ?L = "takeWhile ?P ?l @ new_order # dropWhile ?P ?l"
  have a: "insert_order order_list t new_order = Inr (order_list[?k := ?L])"
    using assms by (simp add: insert_order_def insert_chain_eq)
  have b: "\<forall>x\<in>set (takeWhile ?P ?l). ?P x"
    by (auto dest: set_takeWhileD)
  have c: "\<forall>x\<in>set ?l. price x = price new_order \<longrightarrow> x \<in> set (dropWhile ?P ?l)"
  proof (intro ballI impI)
    fix x
    assume x: "x \<in> set ?l" and e: "price x = price new_order"
    have "set ?l = set (takeWhile ?P ?l) \<union> set (dropWhile ?P ?l)"
      by (metis set_append takeWhile_dropWhile_id)
    moreover from e have "\<not> ?P x" by (simp add: beats_def)
    ultimately show "x \<in> set (dropWhile ?P ?l)" using x b by blast
  qed
  have d: "\<forall>x\<in>set (dropWhile ?P ?l). \<not> ?P x" if srt: "side_sorted (order_type new_order) ?l"
  proof
    fix x
    assume x: "x \<in> set (dropWhile ?P ?l)"
    then have ne: "dropWhile ?P ?l \<noteq> []"
      by (metis empty_iff empty_set)
    then obtain d ds where dd: "dropWhile ?P ?l = d # ds"
      by (meson neq_Nil_conv)
    from ne have "\<not> ?P (hd (dropWhile ?P ?l))" by (simp add: hd_dropWhile)
    then have nd: "\<not> ?P d" unfolding dd by simp
    have "side_sorted (order_type new_order) (takeWhile ?P ?l @ dropWhile ?P ?l)"
      using srt by simp
    then have sd: "side_sorted (order_type new_order) (d # ds)"
      unfolding dd [symmetric] side_sorted_def sorted_wrt_append by (simp split: if_splits)
    show "\<not> ?P x"
    proof (cases "order_type new_order")
      case Buy
      with sd have "\<forall>z\<in>set ds. price z \<le> price d" by (simp add: side_sorted_def)
      with x nd Buy show ?thesis unfolding dd by (auto simp add: beats_def)
    next
      case Sell
      with sd have "\<forall>z\<in>set ds. price d \<le> price z" by (simp add: side_sorted_def)
      with x nd Sell show ?thesis unfolding dd by (auto simp add: beats_def)
    qed
  qed
  have m: "(\<exists>pre. sell_orders (snd (add_order Buy t q' p' b)) ! ?k = pre @ dropWhile ?P ?l)
      \<or> (\<exists>k. sell_orders (snd (add_order Buy t q' p' b)) ! ?k = drop k (dropWhile ?P ?l))
      \<or> (\<exists>k r. k < length (dropWhile ?P ?l)
            \<and> sell_orders (snd (add_order Buy t q' p' b)) ! ?k
              = (dropWhile ?P ?l ! k)\<lparr>quantity := r\<rparr> # drop (Suc k) (dropWhile ?P ?l))"
    if sb: "sell_orders b = order_list[?k := ?L]" for b q' p'
  proof -
    from sb have len: "length (sell_orders b) = length order_list" by simp
    then have ok: "index_ok (sell_orders b) t" and k: "slot (sell_orders b) t = ?k"
      using assms by (simp_all add: index_ok_def slot_def)
    from assms have kl: "?k < length order_list" by (rule slot_less)
    with sb have at: "sell_orders b ! ?k = (takeWhile ?P ?l @ [new_order]) @ dropWhile ?P ?l"
      by simp
    obtain tr new' lst' where
      run: "buy_loop (Order_init Buy t q' p') ((takeWhile ?P ?l @ [new_order]) @ dropWhile ?P ?l) []
          = (tr, new', lst')"
      by (cases "buy_loop (Order_init Buy t q' p')
            ((takeWhile ?P ?l @ [new_order]) @ dropWhile ?P ?l) []") auto
    from ok k at run kl len have "sell_orders (snd (add_order Buy t q' p' b)) ! ?k = lst'"
      by (simp add: add_order_Buy)
    with buy_loop_consumes_prefix [OF run] show ?thesis by simp
  qed
  from a b c d m show ?thesis by blast
qed

theorem insert_before_equal_price_witness:
  "index_ok (sell_orders (snd (add_order Sell 0 1 10 OrderBook_init))) 0
   \<and> insert_order (sell_orders (snd (add_order Sell 0 1 10 OrderBook_init))) 0 (Order_init Sell 0 2 10)
     = Inr ((sell_orders (snd (add_order Sell 0 1 10 OrderBook_init)))
          [slot (sell_orders (snd (add_order Sell 0 1 10 OrderBook_init))) 0 :=
             [Order_init Sell 0 2 10, Order_init Sell 0 1 10]])
   \<and> sell_orders (snd (add_order Sell 0 2 10 (snd (add_order Sell 0 1 10 OrderBook_init))))
     = (sell_orders (snd (add_order Sell 0 1 10 OrderBook_init)))
          [slot (sell_orders (snd (add_order Sell 0 1 10 OrderBook_init))) 0 :=
             [Order_init Sell 0 2 10, Order_init Sell 0 1 10]]
   \<and> sell_orders (snd (add_order Buy 0 2 10
        (snd (add_order Sell 0 2 10 (snd (add_order Sell 0 1 10 OrderBook_init))))))
        ! slot (sell_orders (snd (add_order Sell 0 1 10 OrderBook_init))) 0
     = [] @ [Order_init Sell 0 1 10]"
proof -
  have h: "index_ok (sell_orders (snd (add_order Sell 0 1 10 OrderBook_init))) 0"
    by code_simp
  have e: "sell_orders (snd (add_order Sell 0 1 10 OrderBook_init))
        ! slot (sell_orders (snd (add_order Sell 0 1 10 OrderBook_init))) 0
      = [Order_init Sell 0 1 10]"
    by code_simp
  have f: "sell_orders (snd (add_order Sell 0 2 10 (snd (add_order Sell 0 1 10 OrderBook_init))))
     = (sell_orders (snd (add_order Sell 0 1 10 OrderBook_init)))
          [slot (sell_orders (snd (add_order Sell 0 1 10 OrderBook_init))) 0 :=
             [Order_init Sell 0 2 10, Order_init Sell 0 1 10]]"
    by code_simp
  have g: "sell_orders (snd (add_order Buy 0 2 10
        (snd (add_order Sell 0 2 10 (snd (add_order Sell 0 1 10 OrderBook_init))))))
        ! slot (sell_orders (snd (add_order Sell 0 1 10 OrderBook_init))) 0
     = [] @ [Order_init Sell 0 1 10]"
    by code_simp
  show ?thesis
    using h f g insert_before_equal_price [OF h, of "Order_init Sell 0 2 10"]
    by (simp add: e) (simp add: beats_def Order_init_def)
qed

section \<open>The remainder\<close>

text \<open>
  The opposite side is empty and a Buy of 2147483648 shares is submitted. Its
  \<^verbatim>\<open>c_int\<close> cell holds -2147483648, the test \<^verbatim>\<open>new_order.quantity.get() > 0\<close> fails, and
  nothing is inserted.
\<close>

theorem remainder_overflow_counterexample:
  "sell_orders OrderBook_init ! 0 = []
   \<and> fst (add_order Buy 0 2147483648 10 OrderBook_init) = Inr []
   \<and> buy_orders (snd (add_order Buy 0 2147483648 10 OrderBook_init)) ! 0 = []"
  by code_simp

text \<open>
  C7, for a matching phase that returns and a quantity the \<^verbatim>\<open>c_int\<close> cell holds: when
  \<^verbatim>\<open>match_orders\<close> returns the trades \<open>fills\<close> and leaves the incoming order as \<open>new'\<close>,
  \<^verbatim>\<open>add_order\<close> returns \<open>fills\<close>, and the array of the order's own side is the one from
  before the call with \<open>new'\<close> inserted at the ticker if the remaining quantity of
  \<open>new'\<close> is positive, and is the one from before the call otherwise (an order matched
  in full is not inserted). With an empty opposite list no trade is returned and the
  order reaches the insertion as it was submitted; its cell holds the submitted quantity
  when that is from 1 to 2147483647.
\<close>

theorem remainder_handling:
  assumes m: "match_orders (Order_init ot t q p) b = (Inr fills, new', b')"
    and ok: "index_ok (own_side ot b) t"
  shows "fst (add_order ot t q p b) = Inr fills
    \<and> own_side ot (snd (add_order ot t q p b)) =
        (if 0 < get (quantity new')
         then (own_side ot b)[slot (own_side ot b) t :=
                insert_chain new' (own_side ot b ! slot (own_side ot b) t)]
         else own_side ot b)
    \<and> (opposite_side ot b ! slot (opposite_side ot b) t = [] \<longrightarrow>
         fills = [] \<and> new' = Order_init ot t q p \<and> b' = b)
    \<and> (0 < q \<and> q < 2147483648 \<longrightarrow> get (quantity (Order_init ot t q p)) = q)"
proof -
  from m have own: "own_side ot b' = own_side ot b"
    using match_orders_own_side [of "Order_init ot t q p" b] by (simp add: Order_init_def)
  have q: "0 < q \<and> q < 2147483648 \<longrightarrow> get (quantity (Order_init ot t q p)) = q"
    by (simp add: get_def Order_init_quantity)
  show ?thesis
  proof (cases ot)
    case Buy
    with own ok have ok': "index_ok (buy_orders b') t" and eq: "buy_orders b' = buy_orders b"
      by (simp_all add: own_side_def)
    from m Buy have empty: "fills = [] \<and> new' = Order_init ot t q p \<and> b' = b"
      if "sell_orders b ! slot (sell_orders b) t = []"
      using that by (auto simp add: match_orders_def Order_init_def list_update_same split: if_splits)
    from m Buy ok' eq empty q show ?thesis
      by (simp add: add_order_def insert_order_def own_side_def opposite_side_def)
  next
    case Sell
    with own ok have ok': "index_ok (sell_orders b') t" and eq: "sell_orders b' = sell_orders b"
      by (simp_all add: own_side_def)
    from m Sell have empty: "fills = [] \<and> new' = Order_init ot t q p \<and> b' = b"
      if "buy_orders b ! slot (buy_orders b) t = []"
      using that by (auto simp add: match_orders_def Order_init_def list_update_same split: if_splits)
    from m Sell ok' eq empty q show ?thesis
      by (simp add: add_order_def insert_order_def own_side_def opposite_side_def)
  qed
qed

theorem remainder_handling_witness:
  "match_orders (Order_init Buy 0 40 10) OrderBook_init
     = (Inr [], Order_init Buy 0 40 10, OrderBook_init)
   \<and> index_ok (own_side Buy OrderBook_init) 0
   \<and> fst (add_order Buy 0 40 10 OrderBook_init) = Inr []
   \<and> own_side Buy (snd (add_order Buy 0 40 10 OrderBook_init))
       = (own_side Buy OrderBook_init)[slot (own_side Buy OrderBook_init) 0 := [Order_init Buy 0 40 10]]
   \<and> get (quantity (Order_init Buy 0 40 10)) = 40"
proof -
  have e: "buy_orders OrderBook_init ! 0 = [] \<and> sell_orders OrderBook_init ! 0 = []"
    by (simp add: OrderBook_init_def)
  have s: "slot (buy_orders OrderBook_init) 0 = 0 \<and> slot (sell_orders OrderBook_init) 0 = 0"
    by (simp add: slot_def)
  have i: "index_ok (sell_orders OrderBook_init) 0"
    by (simp add: index_ok_def OrderBook_init_def)
  have m: "match_orders (Order_init Buy 0 40 10) OrderBook_init
      = (Inr [], Order_init Buy 0 40 10, OrderBook_init)"
    using e s i by (simp add: match_orders_def Order_init_def list_update_same)
  have h: "index_ok (own_side Buy OrderBook_init) 0"
    by (simp add: own_side_def index_ok_def OrderBook_init_def)
  have g: "get (quantity (Order_init Buy 0 40 10)) = 40"
    by (simp add: get_def Order_init_quantity)
  show ?thesis
    using m h g e s remainder_handling [OF m h]
    by (simp add: own_side_def)
qed

section \<open>Conservation of quantity\<close>

text \<open>
  One call: what rests for the ticker after the call, plus twice the traded quantity
  (a trade takes its quantity from the incoming order and from the resting order),
  is what rested before plus the submitted quantity.
\<close>

lemma slot_list_update: "slot (xs[k := v]) t = slot xs t"
  by (simp add: slot_def)

lemma add_order_conserves:
  assumes inv: "book_inv b" and q: "0 < q" "q < 2147483648"
    and r: "add_order ot t q p b = (Inr fills, b')"
  shows "resting b' t + 2 * fill_sum fills = resting b t + q"
proof (cases ot)
  case Buy
  let ?k = "slot (sell_orders b) t"
  let ?j = "slot (buy_orders b) t"
  from r Buy have ok: "index_ok (sell_orders b) t"
    by (auto simp add: add_order_Buy split: if_splits)
  obtain tr new' lst' where
    run: "buy_loop (Order_init Buy t q p) (sell_orders b ! ?k) [] = (tr, new', lst')"
    by (cases "buy_loop (Order_init Buy t q p) (sell_orders b ! ?k) []") auto
  from book_inv_sell_slot [OF inv ok] have pos: "all_positive (sell_orders b ! ?k)" by simp
  from q have q0: "sint (quantity (Order_init Buy t q p)) = q"
    by (simp add: Order_init_quantity)
  with q have q1: "0 \<le> sint (quantity (Order_init Buy t q p))" by simp
  from buy_loop_positive [OF run pos q1] have n0: "0 \<le> sint (quantity new')" by simp
  from buy_loop_conserves [OF run pos q1] q0
  have cons: "resting_sum lst' + sint (quantity new') + 2 * fill_sum tr
      = resting_sum (sell_orders b ! ?k) + q"
    by (simp add: fill_sum_def)
  from ok have k: "?k < length (sell_orders b)" by (rule slot_less)
  show ?thesis
  proof (cases "0 < sint (quantity new')")
    case True
    with r Buy ok run have okb: "index_ok (buy_orders b) t"
      by (auto simp add: add_order_Buy split: if_splits)
    then have j: "?j < length (buy_orders b)" by (rule slot_less)
    from r Buy ok run True okb have
      "fills = tr" and
      "b' = b\<lparr>sell_orders := (sell_orders b)[?k := lst'],
              buy_orders := (buy_orders b)[?j := insert_chain new' (buy_orders b ! ?j)]\<rparr>"
      by (simp_all add: add_order_Buy)
    with cons k j show ?thesis
      by (simp add: resting_def slot_list_update resting_sum_insert_chain get_def)
  next
    case False
    with n0 have z: "sint (quantity new') = 0" by simp
    from r Buy ok run False have
      "fills = tr" and "b' = b\<lparr>sell_orders := (sell_orders b)[?k := lst']\<rparr>"
      by (simp_all add: add_order_Buy)
    with cons k z show ?thesis
      by (simp add: resting_def slot_list_update)
  qed
next
  case Sell
  let ?k = "slot (sell_orders b) t"
  from q have q0: "sint (word_of_int q :: 32 word) = q"
    by (simp add: sint_word_of_int_32)
  from r Sell q q0 have ok: "index_ok (sell_orders b) t"
    by (auto simp add: add_order_Sell split: if_splits)
  then have k: "?k < length (sell_orders b)" by (rule slot_less)
  from r Sell q q0 ok have "fills = []" and
    "b' = b\<lparr>sell_orders := (sell_orders b)[?k :=
            insert_chain (Order_init Sell t q p) (sell_orders b ! ?k)]\<rparr>"
    by (auto simp add: add_order_Sell split: if_splits)
  with k q0 show ?thesis
    by (simp add: resting_def slot_list_update resting_sum_insert_chain get_def fill_sum_def
        Order_init_def AtomicInteger_init_def)
qed

lemma fill_sum_append: "fill_sum (xs @ ys) = fill_sum xs + fill_sum ys"
  by (simp add: fill_sum_def)

lemma submit_all_conserves:
  "list_all (valid_on t) subs \<Longrightarrow> book_inv b \<Longrightarrow> submit_all subs b = (Inr fills, b') \<Longrightarrow>
     resting b' t + 2 * fill_sum fills = resting b t + submitted_sum subs"
proof (induction subs arbitrary: b fills)
  case Nil
  then show ?case by (simp add: submitted_sum_def fill_sum_def)
next
  case (Cons s subs)
  obtain ot t' q p where s: "s = (ot, t', q, p)" by (cases s) auto
  from Cons.prems(1) have vs: "valid_on t s" and rest: "list_all (valid_on t) subs"
    by simp_all
  from vs s have v: "t' = t" "0 < q" "q < 2147483648"
    by (simp_all add: valid_on_def)
  from Cons.prems(3) s v obtain f1 b1 f2 where
    a: "add_order ot t q p b = (Inr f1, b1)" and
    r: "submit_all subs b1 = (Inr f2, b')" and
    f: "fills = f1 @ f2"
    by (auto split: prod.splits sum.splits)
  from book_inv_add_order [OF Cons.prems(2), of q ot t p] v a have inv1: "book_inv b1"
    by simp
  from add_order_conserves [OF Cons.prems(2) v(2,3) a]
  have "resting b1 t + 2 * fill_sum f1 = resting b t + q" .
  moreover from Cons.IH [OF rest inv1 r]
  have "resting b' t + 2 * fill_sum f2 = resting b1 t + submitted_sum subs" .
  ultimately show ?case
    using f s by (simp add: fill_sum_append submitted_sum_def)
qed

lemma book_inv_init: "book_inv OrderBook_init"
  by (simp add: book_inv_def OrderBook_init_def list_all_iff side_sorted_def all_positive_def)

lemma resting_init: "index_ok (buy_orders OrderBook_init) t \<Longrightarrow> resting OrderBook_init t = 0"
  by (auto simp add: resting_def resting_sum_def OrderBook_init_def index_ok_def slot_def)

text \<open>
  A Sell of 100 at price 10 and then a Buy of 100 at price 10 give one trade of 100 and
  an empty book: nothing rests, the trades sum to 100, and 200 shares were submitted.
\<close>

theorem conservation_counterexample:
  "fst (submit_all [(Sell, 0, 100, 10), (Buy, 0, 100, 10)] OrderBook_init) = Inr [(10, 100, 0)]
   \<and> resting (snd (submit_all [(Sell, 0, 100, 10), (Buy, 0, 100, 10)] OrderBook_init)) 0
       + fill_sum [(10, 100, 0)]
     \<noteq> submitted_sum [(Sell, 0, 100, 10), (Buy, 0, 100, 10)]"
  by code_simp

text \<open>
  C5, with every trade counted for both of its orders: for every sequence of
  submissions for one valid ticker, each with a quantity from 1 to 2147483647, run from
  the empty book with every call returning, the quantities resting for the ticker on
  both sides plus twice the quantities of all trades returned equal the sum of the
  submitted quantities.
\<close>

theorem conservation:
  assumes "list_all (valid_on t) subs"
    and "index_ok (buy_orders OrderBook_init) t"
    and "submit_all subs OrderBook_init = (Inr fills, b)"
  shows "resting b t + 2 * fill_sum fills = submitted_sum subs"
  using submit_all_conserves [OF assms(1) book_inv_init assms(3)] resting_init [OF assms(2)]
  by simp

theorem conservation_witness:
  "list_all (valid_on 0) [(Sell, 0, 50, 10), (Sell, 0, 30, 9), (Buy, 0, 100, 10)]
   \<and> index_ok (buy_orders OrderBook_init) 0
   \<and> fst (submit_all [(Sell, 0, 50, 10), (Sell, 0, 30, 9), (Buy, 0, 100, 10)] OrderBook_init)
       = Inr [(10, 30, 0), (10, 50, 0)]
   \<and> resting (snd (submit_all [(Sell, 0, 50, 10), (Sell, 0, 30, 9), (Buy, 0, 100, 10)] OrderBook_init)) 0
       + 2 * fill_sum [(10, 30, 0), (10, 50, 0)]
     = submitted_sum [(Sell, 0, 50, 10), (Sell, 0, 30, 9), (Buy, 0, 100, 10)]"
proof -
  have v: "list_all (valid_on 0) [(Sell, 0, 50, 10), (Sell, 0, 30, 9), (Buy, 0, 100, 10)]"
    by (simp add: valid_on_def)
  have i: "index_ok (buy_orders OrderBook_init) 0"
    by (simp add: index_ok_def OrderBook_init_def)
  have f: "fst (submit_all [(Sell, 0, 50, 10), (Sell, 0, 30, 9), (Buy, 0, 100, 10)] OrderBook_init)
       = Inr [(10, 30, 0), (10, 50, 0)]"
    by code_simp
  then have r: "submit_all [(Sell, 0, 50, 10), (Sell, 0, 30, 9), (Buy, 0, 100, 10)] OrderBook_init
      = (Inr [(10, 30, 0), (10, 50, 0)],
         snd (submit_all [(Sell, 0, 50, 10), (Sell, 0, 30, 9), (Buy, 0, 100, 10)] OrderBook_init))"
    by (metis prod.collapse)
  show ?thesis
    using v i f conservation [OF v i r] by simp
qed

end
